theory Spec2Isabelle
  imports Main "HOL-Library.Sublist"
begin

section \<open>The static event family of the SWE library\<close>

text \<open>
  The two class templates \<^verbatim>\<open>swe::static_event<Caller, Args...>\<close> and
  \<^verbatim>\<open>swe::concurrent_static_event<Caller, Args...>\<close> hold a
  \<^verbatim>\<open>std::vector\<close> of function pointers. \<^verbatim>\<open>operator+=\<close> appends,
  \<^verbatim>\<open>operator-=\<close> runs the erase-remove idiom, and the private
  \<^verbatim>\<open>operator()\<close> calls every stored pointer in a range-for loop.
\<close>

subsection \<open>Callbacks and what calling one does\<close>

text \<open>
  \<^verbatim>\<open>using callback = void (*)(Args...)\<close>: a function pointer is the address of a
  function, and two pointers are equal iff the addresses are. Address 0 is the null
  pointer.
\<close>

type_synonym callback = nat

definition nullptr :: callback where
  "nullptr = 0"

text \<open>
  A callback returns nothing, so all it does is change the program's global state
  (type \<open>'w\<close>) or throw (an exception value of type \<open>'e\<close>, with the state as it was at
  the throw). After undefined behaviour there is no state to speak of. A program of
  this first kind has callbacks that leave the event they are subscribed to alone;
  callbacks that call the event's own operators come further down.
\<close>

datatype ('e, 's) outcome = Returned 's | Thrown 'e 's | Undefined

text \<open>
  The functions of the program with the signature \<^verbatim>\<open>void(Args...)\<close>, by address.
\<close>

type_synonym ('a, 'e, 'w) program = "callback \<Rightarrow> ('a \<Rightarrow> 'w \<Rightarrow> ('e, 'w) outcome) option"

text \<open>
  The call expression \<^verbatim>\<open>cb(args...)\<close>. Calling through the null pointer, or through
  an address that holds no function, is undefined behaviour of the language.
\<close>

definition call :: "('a, 'e, 'w) program \<Rightarrow> callback \<Rightarrow> 'a \<Rightarrow> 'w \<Rightarrow> ('e, 'w) outcome" where
  "call P cb args w =
     (if cb = nullptr then Undefined
      else case P cb of None \<Rightarrow> Undefined | Some f \<Rightarrow> f args w)"

subsection \<open>The parts of the standard library the operators use\<close>

text \<open>
  \<^verbatim>\<open>std::vector::push_back\<close> and \<^verbatim>\<open>std::vector::erase(first, last)\<close>, with
  iterators as indices into the vector.
\<close>

definition push_back :: "callback \<Rightarrow> callback list \<Rightarrow> callback list" where
  "push_back cb v = v @ [cb]"

definition erase :: "nat \<Rightarrow> nat \<Rightarrow> callback list \<Rightarrow> callback list" where
  "erase it_first it_last v = take it_first v @ drop it_last v"

text \<open>
  \<^verbatim>\<open>std::find(first, last, value)\<close>:
  \<^verbatim>\<open>for (; first != last; ++first) if (*first == value) return first; return last;\<close>
\<close>

function std_find :: "callback list \<Rightarrow> nat \<Rightarrow> callback \<Rightarrow> nat" where
  "std_find v first x =
     (if first < length v
      then (if v ! first = x then first else std_find v (Suc first) x)
      else first)"
  by pat_completeness auto
termination
  by (relation "measure (\<lambda>(v, first, x). length v - first)") auto

text \<open>
  \<^verbatim>\<open>std::remove(first, last, value)\<close> over the whole vector:
  \<^verbatim>\<open>
  first = std::find(first, last, value);
  if (first != last)
      for (auto i = first; ++i != last;)
          if (!(*i == value))
              *first++ = std::move(*i);
  return first;
  \<close>
  It works in place: the kept elements are shifted to the front by assignment, the
  vector keeps its length, and the returned iterator is the new logical end. The loop
  below is the \<^verbatim>\<open>for\<close> loop, with \<open>i\<close> already advanced.
\<close>

function remove_loop :: "callback \<Rightarrow> nat \<Rightarrow> nat \<Rightarrow> callback list \<Rightarrow> callback list \<times> nat" where
  "remove_loop x i first v =
     (if i < length v
      then (if v ! i \<noteq> x
            then remove_loop x (Suc i) (Suc first) (v[first := v ! i])
            else remove_loop x (Suc i) first v)
      else (v, first))"
  by pat_completeness auto
termination
  by (relation "measure (\<lambda>(x, i, first, v). length v - i)") auto

definition std_remove :: "callback list \<Rightarrow> callback \<Rightarrow> callback list \<times> nat" where
  "std_remove v x =
     (let first = std_find v 0 x
      in if first \<noteq> length v then remove_loop x (Suc first) first v else (v, first))"

subsection \<open>static_event\<close>

text \<open>
  The class has one data member, \<^verbatim>\<open>std::vector<callback> _callbacks\<close>. The default
  constructor leaves it empty.
\<close>

record static_event =
  callbacks :: "callback list"

definition static_event_new :: static_event where
  "static_event_new = \<lparr>callbacks = []\<rparr>"

text \<open>\<^verbatim>\<open>void operator+=(callback cb) { _callbacks.push_back(cb); }\<close>\<close>

definition subscribe :: "callback \<Rightarrow> static_event \<Rightarrow> static_event" where
  "subscribe cb ev = ev\<lparr>callbacks := push_back cb (callbacks ev)\<rparr>"

text \<open>
  \<^verbatim>\<open>
  void operator-=(callback cb) {
      auto it = std::remove(_callbacks.begin(), _callbacks.end(), cb);
      if (it != _callbacks.end())
          _callbacks.erase(it, _callbacks.end());
  }
  \<close>
\<close>

definition unsubscribe :: "callback \<Rightarrow> static_event \<Rightarrow> static_event" where
  "unsubscribe cb ev =
     (let (v, it) = std_remove (callbacks ev) cb
      in if it \<noteq> length v
         then ev\<lparr>callbacks := erase it (length v) v\<rparr>
         else ev\<lparr>callbacks := v\<rparr>)"

text \<open>
  \<^verbatim>\<open>for (auto& cb : _callbacks) { cb(args...); }\<close>
  The loop walks the vector front to back. There is no \<^verbatim>\<open>try\<close> in it and no test of
  \<open>cb\<close>: a call that throws ends the loop with that exception, and so does a call
  whose behaviour is undefined. Beside the outcome the model returns the list of the
  pointers that were called, in the order of the calls. This is the loop for callbacks
  that leave the event alone: the vector does not change while it runs, so it is a walk
  over the list of the elements.
\<close>

fun invoke_loop ::
  "('a, 'e, 'w) program \<Rightarrow> 'a \<Rightarrow> callback list \<Rightarrow> 'w \<Rightarrow> callback list \<times> ('e, 'w) outcome" where
  "invoke_loop P args [] w = ([], Returned w)"
| "invoke_loop P args (cb # rest) w =
     (case call P cb args w of
        Returned w' \<Rightarrow> (let (called, r) = invoke_loop P args rest w' in (cb # called, r))
      | Thrown e w' \<Rightarrow> ([cb], Thrown e w')
      | Undefined \<Rightarrow> ([cb], Undefined))"

text \<open>
  \<^verbatim>\<open>void operator()(Args... args)\<close> of \<open>static_event\<close>: the loop over the member.
  The state an outcome carries is the event together with the global state.
\<close>

definition invoke ::
  "('a, 'e, 'w) program \<Rightarrow> static_event \<Rightarrow> 'a \<Rightarrow> 'w
     \<Rightarrow> callback list \<times> ('e, static_event \<times> 'w) outcome" where
  "invoke P ev args w =
     (let (called, r) = invoke_loop P args (callbacks ev) w
      in (called, map_outcome (\<lambda>e. e) (Pair ev) r))"

subsection \<open>concurrent_static_event\<close>

text \<open>
  The concurrent class has two data members, \<^verbatim>\<open>std::mutex _mutex\<close> and
  \<^verbatim>\<open>std::vector<callback> _callbacks\<close>. Of the mutex the model keeps whether it is
  held. Both start out default-constructed: the mutex free, the vector empty.
\<close>

record concurrent_static_event =
  mutex :: bool
  concurrent_callbacks :: "callback list"

definition concurrent_static_event_new :: concurrent_static_event where
  "concurrent_static_event_new = \<lparr>mutex = False, concurrent_callbacks = []\<rparr>"

text \<open>
  \<^verbatim>\<open>std::lock_guard<std::mutex> lock(_mutex);\<close> The constructor locks the mutex and
  waits for as long as it is held; in a run of one thread nobody ever frees a held mutex,
  so the operation does not return then (\<open>None\<close>). The destructor unlocks at the end of
  the enclosing block, also when an exception leaves the block.
\<close>

definition lock_guard :: "concurrent_static_event \<Rightarrow> concurrent_static_event option" where
  "lock_guard ev = (if mutex ev then None else Some (ev\<lparr>mutex := True\<rparr>))"

definition unlock :: "concurrent_static_event \<Rightarrow> concurrent_static_event" where
  "unlock ev = ev\<lparr>mutex := False\<rparr>"

text \<open>
  \<^verbatim>\<open>
  void operator+=(callback cb) {
      std::lock_guard<std::mutex> lock(_mutex);
      _callbacks.push_back(cb);
  }
  \<close>
\<close>

definition concurrent_subscribe ::
  "callback \<Rightarrow> concurrent_static_event \<Rightarrow> concurrent_static_event option" where
  "concurrent_subscribe cb ev =
     (case lock_guard ev of
        None \<Rightarrow> None
      | Some l \<Rightarrow>
          Some (unlock (l\<lparr>concurrent_callbacks := push_back cb (concurrent_callbacks l)\<rparr>)))"

text \<open>
  \<^verbatim>\<open>
  void operator-=(callback cb) {
      std::lock_guard<std::mutex> lock(_mutex);
      auto it = std::remove(_callbacks.begin(), _callbacks.end(), cb);
      if (it != _callbacks.end())
          _callbacks.erase(it, _callbacks.end());
  }
  \<close>
\<close>

definition concurrent_unsubscribe ::
  "callback \<Rightarrow> concurrent_static_event \<Rightarrow> concurrent_static_event option" where
  "concurrent_unsubscribe cb ev =
     (case lock_guard ev of
        None \<Rightarrow> None
      | Some l \<Rightarrow>
          (let (v, it) = std_remove (concurrent_callbacks l) cb
           in Some (unlock (if it \<noteq> length v
                            then l\<lparr>concurrent_callbacks := erase it (length v) v\<rparr>
                            else l\<lparr>concurrent_callbacks := v\<rparr>))))"

text \<open>
  \<^verbatim>\<open>
  void operator()(Args... args) {
      std::lock_guard<std::mutex> lock(_mutex);
      for (auto& cb : _callbacks) { cb(args...); }
  }
  \<close>
  The guard is destroyed when the loop is left, by its end or by an exception.
\<close>

definition concurrent_invoke ::
  "('a, 'e, 'w) program \<Rightarrow> concurrent_static_event \<Rightarrow> 'a \<Rightarrow> 'w
     \<Rightarrow> (callback list \<times> ('e, concurrent_static_event \<times> 'w) outcome) option" where
  "concurrent_invoke P ev args w =
     (case lock_guard ev of
        None \<Rightarrow> None
      | Some l \<Rightarrow>
          (let (called, r) = invoke_loop P args (concurrent_callbacks l) w
           in Some (called, map_outcome (\<lambda>e. e) (Pair (unlock l)) r)))"

subsection \<open>Callbacks that call back into the event\<close>

text \<open>
  The public members of both classes are \<^verbatim>\<open>operator+=\<close> and \<^verbatim>\<open>operator-=\<close>, and
  both return nothing: a callback can change the event it is subscribed to, by calling
  them, but it cannot read the event. What such a callback does is therefore given by
  the operator calls it makes on the event, in the order it makes them, together with
  its outcome on the global state; when it throws, the calls are those made before the
  throw. (A callback that is a member of \<^verbatim>\<open>Caller\<close> could also invoke the event from
  inside an invocation; this recursion is left out.)
\<close>

datatype reentrant_call = CallSubscribe callback | CallUnsubscribe callback

type_synonym ('a, 'e, 'w) reentrant_program =
  "callback \<Rightarrow> ('a \<Rightarrow> 'w \<Rightarrow> reentrant_call list \<times> ('e, 'w) outcome) option"

definition call_reentrant ::
  "('a, 'e, 'w) reentrant_program \<Rightarrow> callback \<Rightarrow> 'a \<Rightarrow> 'w
     \<Rightarrow> reentrant_call list \<times> ('e, 'w) outcome" where
  "call_reentrant P cb args w =
     (if cb = nullptr then ([], Undefined)
      else case P cb of None \<Rightarrow> ([], Undefined) | Some f \<Rightarrow> f args w)"

text \<open>A program of the first kind, seen as one whose callbacks make no calls on the event.\<close>

definition plain :: "('a, 'e, 'w) program \<Rightarrow> ('a, 'e, 'w) reentrant_program" where
  "plain P cb = (case P cb of None \<Rightarrow> None | Some f \<Rightarrow> Some (\<lambda>args w. ([], f args w)))"

subsection \<open>The vector in memory\<close>

text \<open>
  While the range-for loop of \<^verbatim>\<open>operator()\<close> runs, it holds two iterators into the
  storage of \<^verbatim>\<open>_callbacks\<close>: the position it is at and the end as it was when the loop
  began. A callback that calls \<^verbatim>\<open>operator+=\<close> or \<^verbatim>\<open>operator-=\<close> on the same
  \<open>static_event\<close> changes that storage under the loop, so for such callbacks the vector
  is modelled as it lies in memory: the allocated block (a number that changes with
  every reallocation), its slots (as many as the capacity) and the number of slots in
  use. The elements of the vector are the slots in use.
\<close>

record vector =
  block :: nat
  buffer :: "callback list"
  used :: nat

definition vector_new :: vector where
  "vector_new = \<lparr>block = 0, buffer = [], used = 0\<rparr>"

definition live :: "vector \<Rightarrow> callback list" where
  "live v = take (used v) (buffer v)"

text \<open>
  \<^verbatim>\<open>push_back\<close> writes into the next free slot. When there is none it moves the
  elements into a new block and frees the old one; the new capacity is the
  implementation's choice, here \<open>size + max(size, 1)\<close> as in libstdc++. The slots beyond
  the elements hold no value yet; the model puts a null pointer there, and no loop below
  reads such a slot, since a loop only reads slots that were in use when it began.
\<close>

definition vector_push_back :: "callback \<Rightarrow> vector \<Rightarrow> vector" where
  "vector_push_back cb v =
     (if used v < length (buffer v)
      then v\<lparr>buffer := (buffer v)[used v := cb], used := Suc (used v)\<rparr>
      else \<lparr>block = Suc (block v),
            buffer = live v @ cb # replicate (max (used v) 1 - 1) nullptr,
            used = Suc (used v)\<rparr>)"

text \<open>
  \<^verbatim>\<open>operator+=\<close> and \<^verbatim>\<open>operator-=\<close> of \<open>static_event\<close> on the vector in memory.
  \<^verbatim>\<open>std::remove\<close> shifts the kept elements forward inside the slots in use, and
  \<^verbatim>\<open>erase(it, end())\<close> lowers the number of slots in use to \<open>it\<close>; function pointers
  have no destructor, so the slots cut off keep the values the shifting left in them.
\<close>

definition subscribe_stored :: "callback \<Rightarrow> vector \<Rightarrow> vector" where
  "subscribe_stored cb v = vector_push_back cb v"

definition unsubscribe_stored :: "callback \<Rightarrow> vector \<Rightarrow> vector" where
  "unsubscribe_stored cb v =
     (let (r, it) = std_remove (live v) cb;
          v' = v\<lparr>buffer := r @ drop (used v) (buffer v)\<rparr>
      in if it \<noteq> used v then v'\<lparr>used := it\<rparr> else v')"

fun reenter :: "reentrant_call \<Rightarrow> vector \<Rightarrow> vector" where
  "reenter (CallSubscribe cb) v = subscribe_stored cb v"
| "reenter (CallUnsubscribe cb) v = unsubscribe_stored cb v"

text \<open>
  \<^verbatim>\<open>for (auto& cb : _callbacks) { cb(args...); }\<close> is
  \<^verbatim>\<open>
  auto __begin = _callbacks.begin(), __end = _callbacks.end();
  for (; __begin != __end; ++__begin) { auto& cb = *__begin; cb(args...); }
  \<close>
  \<open>blk\<close> is the block the two iterators point into, \<open>it\<close> and \<open>e\<close> are their slots.
  \<open>it\<close> starts at 0 and \<open>e\<close> does not move, so \<open>it \<noteq> e\<close> is \<open>it < e\<close>. Each round
  reads the slot \<open>it\<close> of the vector as it is then, and calls what it finds; the calls
  the callback makes on the event have changed the vector when the next round reads
  it. After a reallocation the iterators point into freed memory, and reading through
  them is undefined.
\<close>

function range_for ::
  "('a, 'e, 'w) reentrant_program \<Rightarrow> 'a \<Rightarrow> nat \<Rightarrow> nat \<Rightarrow> nat \<Rightarrow> vector \<Rightarrow> 'w
     \<Rightarrow> callback list \<times> ('e, vector \<times> 'w) outcome" where
  "range_for P args blk it e v w =
     (if it < e
      then (if block v \<noteq> blk \<or> length (buffer v) \<le> it then ([], Undefined)
            else (let cb = buffer v ! it;
                      (calls, r) = call_reentrant P cb args w
                  in case r of
                       Returned w' \<Rightarrow>
                         (let (called, r') =
                                range_for P args blk (Suc it) e (fold reenter calls v) w'
                          in (cb # called, r'))
                     | Thrown x w' \<Rightarrow> ([cb], Thrown x (fold reenter calls v, w'))
                     | Undefined \<Rightarrow> ([cb], Undefined)))
      else ([], Returned (v, w)))"
  by pat_completeness auto
termination
  by (relation "measure (\<lambda>(P, args, blk, it, e, v, w). e - it)") auto

text \<open>\<^verbatim>\<open>operator()\<close> of \<open>static_event\<close> on the vector in memory.\<close>

definition invoke_stored ::
  "('a, 'e, 'w) reentrant_program \<Rightarrow> vector \<Rightarrow> 'a \<Rightarrow> 'w
     \<Rightarrow> callback list \<times> ('e, vector \<times> 'w) outcome" where
  "invoke_stored P v args w = range_for P args (block v) 0 (used v) v w"

text \<open>
  In \<open>concurrent_static_event\<close> the loop runs with the mutex held, and
  \<^verbatim>\<open>operator+=\<close> and \<^verbatim>\<open>operator-=\<close> begin by locking the same mutex, which is not
  recursive: the first call a callback makes on the event never returns, and neither
  does the invocation (\<open>None\<close>). So the vector is never written while the loop runs,
  and the loop is a walk over its elements.
\<close>

fun concurrent_range_for ::
  "('a, 'e, 'w) reentrant_program \<Rightarrow> 'a \<Rightarrow> callback list \<Rightarrow> 'w
     \<Rightarrow> (callback list \<times> ('e, 'w) outcome) option" where
  "concurrent_range_for P args [] w = Some ([], Returned w)"
| "concurrent_range_for P args (cb # rest) w =
     (let (calls, r) = call_reentrant P cb args w
      in if calls \<noteq> [] then None
         else case r of
                Returned w' \<Rightarrow>
                  (case concurrent_range_for P args rest w' of
                     None \<Rightarrow> None
                   | Some (called, r') \<Rightarrow> Some (cb # called, r'))
              | Thrown x w' \<Rightarrow> Some ([cb], Thrown x w')
              | Undefined \<Rightarrow> Some ([cb], Undefined))"

definition concurrent_invoke_reentrant ::
  "('a, 'e, 'w) reentrant_program \<Rightarrow> concurrent_static_event \<Rightarrow> 'a \<Rightarrow> 'w
     \<Rightarrow> (callback list \<times> ('e, concurrent_static_event \<times> 'w) outcome) option" where
  "concurrent_invoke_reentrant P ev args w =
     (case lock_guard ev of
        None \<Rightarrow> None
      | Some l \<Rightarrow>
          (case concurrent_range_for P args (concurrent_callbacks l) w of
             None \<Rightarrow> None
           | Some (called, r) \<Rightarrow> Some (called, map_outcome (\<lambda>e. e) (Pair (unlock l)) r)))"

subsection \<open>Straight-line programs over one event\<close>

text \<open>
  A sequence of operator applications on one event in one thread, as the bodies of the
  test cases are (\<^verbatim>\<open>event += f; event += g; event -= f; trigger_event(7);\<close>). An
  invocation is made either bare, so that an exception leaving \<^verbatim>\<open>operator()\<close> ends
  the sequence, or inside \<^verbatim>\<open>try { ... } catch (...) { }\<close>, so that the sequence goes on
  after the exception. Undefined behaviour ends the sequence. What can be seen of a run
  from outside is the calls made and the exceptions caught, in order, and how it ended.
\<close>

datatype 'a operation = Subscribe callback | Unsubscribe callback | Invoke 'a | TryInvoke 'a

datatype 'e event = Called callback | Caught 'e

fun run ::
  "('a, 'e, 'w) reentrant_program \<Rightarrow> 'a operation list \<Rightarrow> vector \<Rightarrow> 'w
     \<Rightarrow> 'e event list \<times> ('e, vector \<times> 'w) outcome" where
  "run P [] v w = ([], Returned (v, w))"
| "run P (Subscribe cb # ops) v w = run P ops (subscribe_stored cb v) w"
| "run P (Unsubscribe cb # ops) v w = run P ops (unsubscribe_stored cb v) w"
| "run P (Invoke args # ops) v w =
     (let (called, r) = invoke_stored P v args w
      in case r of
           Returned s \<Rightarrow>
             (let (evs, r') = run P ops (fst s) (snd s) in (map Called called @ evs, r'))
         | Thrown x s \<Rightarrow> (map Called called, Thrown x s)
         | Undefined \<Rightarrow> (map Called called, Undefined))"
| "run P (TryInvoke args # ops) v w =
     (let (called, r) = invoke_stored P v args w
      in case r of
           Returned s \<Rightarrow>
             (let (evs, r') = run P ops (fst s) (snd s) in (map Called called @ evs, r'))
         | Thrown x s \<Rightarrow>
             (let (evs, r') = run P ops (fst s) (snd s)
              in (map Called called @ Caught x # evs, r'))
         | Undefined \<Rightarrow> (map Called called, Undefined))"



subsection \<open>The callbacks of the test suite\<close>

text \<open>
  \<^verbatim>\<open>CallbackTracker\<close> of the tests: two static counters and two callbacks over them,
  \<^verbatim>\<open>callback1(int val) { ++counter; last_value = val; }\<close> and
  \<^verbatim>\<open>callback2(int val) { counter += 2; last_value = val; }\<close>. The counters are
  \<^verbatim>\<open>int\<close> (\<^verbatim>\<open>std::atomic<int>\<close> in the tests of the concurrent event): 32 bits in two's
  complement, so that counting past \<^verbatim>\<open>INT_MAX\<close> wraps around to \<^verbatim>\<open>INT_MIN\<close>.
\<close>

definition wrap_int :: "int \<Rightarrow> int" where
  "wrap_int x = (x + 2147483648) mod 4294967296 - 2147483648"

record tracker =
  counter :: int
  last_value :: int

definition callback1 :: "int \<Rightarrow> tracker \<Rightarrow> (string, tracker) outcome" where
  "callback1 val t = Returned (t\<lparr>counter := wrap_int (counter t + 1), last_value := val\<rparr>)"

definition callback2 :: "int \<Rightarrow> tracker \<Rightarrow> (string, tracker) outcome" where
  "callback2 val t = Returned (t\<lparr>counter := wrap_int (counter t + 2), last_value := val\<rparr>)"

text \<open>
  Two functions which the tests do not have: one counts and then throws, the other
  takes itself off the event it was called from and then counts.
\<close>

definition throwing_callback :: "int \<Rightarrow> tracker \<Rightarrow> (string, tracker) outcome" where
  "throwing_callback val t = Thrown ''fault'' (t\<lparr>counter := wrap_int (counter t + 10)\<rparr>)"

definition self_removing_callback ::
  "int \<Rightarrow> tracker \<Rightarrow> reentrant_call list \<times> (string, tracker) outcome" where
  "self_removing_callback val t =
     ([CallUnsubscribe 7], Returned (t\<lparr>counter := wrap_int (counter t + 100)\<rparr>))"

text \<open>The functions live at the addresses 1, 2, 3 and 7.\<close>

definition test_program :: "(int, string, tracker) program" where
  "test_program cb =
     (if cb = 1 then Some callback1
      else if cb = 2 then Some callback2
      else if cb = 3 then Some throwing_callback
      else None)"

definition test_reentrant_program :: "(int, string, tracker) reentrant_program" where
  "test_reentrant_program cb =
     (if cb = 7 then Some self_removing_callback else plain test_program cb)"

definition tracker_zero :: tracker where
  "tracker_zero = \<lparr>counter = 0, last_value = 0\<rparr>"

section \<open>Counters that stay in range\<close>

lemma wrap_int_in_range [simp]:
  "- 2147483648 \<le> x \<Longrightarrow> x < 2147483648 \<Longrightarrow> wrap_int x = x"
  by (simp add: wrap_int_def)

section \<open>The erase-remove idiom\<close>

text \<open>
  The two library loops are unfolded by hand, one iteration at a time.
\<close>

declare std_find.simps [simp del] remove_loop.simps [simp del] range_for.simps [simp del]

lemma std_find_bounds:
  "first \<le> length v \<Longrightarrow> first \<le> std_find v first x \<and> std_find v first x \<le> length v"
proof (induction v first x rule: std_find.induct)
  case (1 v first x)
  show ?case
  proof (cases "first < length v \<and> v ! first \<noteq> x")
    case True
    with 1 show ?thesis by (subst (1 2) std_find.simps) auto
  next
    case False
    with 1 show ?thesis by (subst (1 2) std_find.simps) auto
  qed
qed

lemma std_find_skips:
  "first \<le> j \<Longrightarrow> j < std_find v first x \<Longrightarrow> v ! j \<noteq> x"
proof (induction v first x rule: std_find.induct)
  case (1 v first x)
  from "1.prems" have run: "first < length v" "v ! first \<noteq> x"
    by (subst (asm) std_find.simps, auto split: if_splits)+
  then have eq: "std_find v first x = std_find v (Suc first) x"
    by (subst std_find.simps) simp
  show ?case
  proof (cases "j = first")
    case True
    with run show ?thesis by simp
  next
    case False
    with "1.prems" eq run "1.IH" show ?thesis by auto
  qed
qed

lemma std_find_hit:
  "std_find v first x < length v \<Longrightarrow> v ! std_find v first x = x"
proof (induction v first x rule: std_find.induct)
  case (1 v first x)
  show ?case
  proof (cases "first < length v")
    case True
    show ?thesis
    proof (cases "v ! first = x")
      case hit: True
      with True have "std_find v first x = first" by (subst std_find.simps) simp
      with hit show ?thesis by simp
    next
      case miss: False
      with True have eq: "std_find v first x = std_find v (Suc first) x"
        by (subst std_find.simps) simp
      with "1.IH" [OF True miss] "1.prems" show ?thesis by simp
    qed
  next
    case False
    then have "std_find v first x = first" by (subst std_find.simps) simp
    with False "1.prems" show ?thesis by simp
  qed
qed

lemma remove_loop_spec:
  "first \<le> i \<Longrightarrow> i \<le> length v \<Longrightarrow> remove_loop x i first v = (v', k) \<Longrightarrow>
     length v' = length v \<and> k \<le> length v \<and>
     take k v' = take first v @ filter (\<lambda>y. y \<noteq> x) (drop i v)"
proof (induction x i first v arbitrary: v' k rule: remove_loop.induct)
  case (1 x i first v)
  show ?case
  proof (cases "i < length v")
    case False
    with "1.prems" have "v' = v" "k = first"
      by (subst (asm) remove_loop.simps, simp)+
    with False "1.prems" show ?thesis by simp
  next
    case True
    note inb = True
    have dropi: "drop i v = v ! i # drop (Suc i) v"
      using inb by (simp add: Cons_nth_drop_Suc)
    show ?thesis
    proof (cases "v ! i \<noteq> x")
      case True
      let ?u = "v[first := v ! i]"
      from True inb "1.prems" have rec: "remove_loop x (Suc i) (Suc first) ?u = (v', k)"
        by (subst (asm) remove_loop.simps) simp
      have "length v' = length ?u \<and> k \<le> length ?u \<and>
            take k v' = take (Suc first) ?u @ filter (\<lambda>y. y \<noteq> x) (drop (Suc i) ?u)"
        using "1.IH"(1) [OF inb True _ _ rec] "1.prems" inb by simp
      moreover have "take (Suc first) ?u = take first v @ [v ! i]"
        using "1.prems" inb by (simp add: take_Suc_conv_app_nth)
      moreover have "drop (Suc i) ?u = drop (Suc i) v"
        using "1.prems" by simp
      ultimately show ?thesis using True dropi by simp
    next
      case False
      with inb "1.prems" have rec: "remove_loop x (Suc i) first v = (v', k)"
        by (subst (asm) remove_loop.simps) simp
      have "length v' = length v \<and> k \<le> length v \<and>
            take k v' = take first v @ filter (\<lambda>y. y \<noteq> x) (drop (Suc i) v)"
        using "1.IH"(2) [OF inb False _ _ rec] "1.prems" inb by simp
      then show ?thesis using False dropi by simp
    qed
  qed
qed


lemma filter_before_find:
  "filter (\<lambda>y. y \<noteq> x) (take (std_find v 0 x) v) = take (std_find v 0 x) v"
proof -
  have "\<forall>y \<in> set (take (std_find v 0 x) v). y \<noteq> x"
  proof
    fix y assume "y \<in> set (take (std_find v 0 x) v)"
    then obtain j where j: "j < std_find v 0 x" "j < length v" "y = v ! j"
      by (auto simp: in_set_conv_nth)
    from std_find_skips [of 0 j v x] j show "y \<noteq> x" by simp
  qed
  then show ?thesis by (simp add: filter_id_conv)
qed

lemma std_remove_spec:
  assumes "std_remove v x = (v', k)"
  shows "length v' = length v \<and> k \<le> length v \<and> take k v' = filter (\<lambda>y. y \<noteq> x) v"
proof (cases "std_find v 0 x = length v")
  case True
  with assms have "v' = v" "k = length v" by (auto simp add: std_remove_def Let_def)
  moreover from True filter_before_find [of x v] have "filter (\<lambda>y. y \<noteq> x) v = v" by simp
  ultimately show ?thesis by simp
next
  case False
  let ?f = "std_find v 0 x"
  from std_find_bounds [of 0 v x] False have lt: "?f < length v" by simp
  from assms False have "remove_loop x (Suc ?f) ?f v = (v', k)"
    by (simp add: std_remove_def Let_def)
  from remove_loop_spec [OF _ _ this] lt
  have *: "length v' = length v" "k \<le> length v"
    "take k v' = take ?f v @ filter (\<lambda>y. y \<noteq> x) (drop (Suc ?f) v)" by simp_all
  have "v = take ?f v @ v ! ?f # drop (Suc ?f) v"
    using lt by (simp add: id_take_nth_drop [symmetric])
  then have "filter (\<lambda>y. y \<noteq> x) v =
      filter (\<lambda>y. y \<noteq> x) (take ?f v) @ filter (\<lambda>y. y \<noteq> x) (v ! ?f # drop (Suc ?f) v)"
    by (metis filter_append)
  also have "\<dots> = take ?f v @ filter (\<lambda>y. y \<noteq> x) (drop (Suc ?f) v)"
    using std_find_hit [OF lt] filter_before_find [of x v] by simp
  finally show ?thesis using * by simp
qed

lemma erase_to_end: "erase k (length v) v = take k v"
  by (simp add: erase_def)

lemma callbacks_unsubscribe:
  "callbacks (unsubscribe cb ev) = filter (\<lambda>y. y \<noteq> cb) (callbacks ev)"
proof -
  obtain v k where r: "std_remove (callbacks ev) cb = (v, k)" by (cases "std_remove (callbacks ev) cb")
  from std_remove_spec [OF r]
  have s: "length v = length (callbacks ev)" "k \<le> length (callbacks ev)"
    "take k v = filter (\<lambda>y. y \<noteq> cb) (callbacks ev)" by simp_all
  show ?thesis
  proof (cases "k = length v")
    case True
    with s have "v = filter (\<lambda>y. y \<noteq> cb) (callbacks ev)" by simp
    with r True show ?thesis by (simp add: unsubscribe_def)
  next
    case False
    with r have "callbacks (unsubscribe cb ev) = erase k (length v) v"
      by (simp add: unsubscribe_def)
    also have "\<dots> = take k v" by (rule erase_to_end)
    finally show ?thesis using s by simp
  qed
qed

lemma std_remove_absent:
  "x \<notin> set v \<Longrightarrow> std_remove v x = (v, length v)"
proof -
  assume a: "x \<notin> set v"
  have "std_find v 0 x = length v"
  proof (rule ccontr)
    assume "std_find v 0 x \<noteq> length v"
    with std_find_bounds [of 0 v x] have lt: "std_find v 0 x < length v" by simp
    from std_find_hit [OF lt] lt a show False by (metis nth_mem)
  qed
  then show ?thesis by (simp add: std_remove_def Let_def)
qed

lemma unsubscribe_absent: "cb \<notin> set (callbacks ev) \<Longrightarrow> unsubscribe cb ev = ev"
  by (simp add: unsubscribe_def std_remove_absent)

section \<open>The invocation loop\<close>

lemma invoke_loop_prefix: "prefix (fst (invoke_loop P args cbs w)) cbs"
proof (induction cbs arbitrary: w)
  case Nil
  show ?case by simp
next
  case (Cons cb cbs)
  show ?case
  proof (cases "call P cb args w")
    case (Returned w1)
    obtain called r where l: "invoke_loop P args cbs w1 = (called, r)"
      by (cases "invoke_loop P args cbs w1")
    with Cons.IH [of w1] have "prefix called cbs" by simp
    with Returned l show ?thesis by simp
  qed simp_all
qed

lemma invoke_loop_returned:
  "invoke_loop P args cbs w = (called, Returned w') \<Longrightarrow> called = cbs"
  by (induction cbs arbitrary: w called) (auto split: outcome.splits prod.splits)

lemma invoke_loop_all_return:
  "\<forall>cb \<in> set cbs. \<forall>w. \<exists>w'. call P cb args w = Returned w' \<Longrightarrow>
     \<exists>w'. invoke_loop P args cbs w = (cbs, Returned w')"
proof (induction cbs arbitrary: w)
  case Nil
  show ?case by simp
next
  case (Cons cb cbs)
  from Cons.prems have "\<exists>w'. call P cb args w = Returned w'" by simp
  then obtain w1 where c: "call P cb args w = Returned w1" ..
  from Cons.IH [of w1] Cons.prems obtain w2 where "invoke_loop P args cbs w1 = (cbs, Returned w2)"
    by auto
  with c show ?case by simp
qed

lemma invoke_loop_append:
  "invoke_loop P args pre w = (called, Returned w1) \<Longrightarrow>
     invoke_loop P args (pre @ post) w =
       (pre @ fst (invoke_loop P args post w1), snd (invoke_loop P args post w1))"
  by (induction pre arbitrary: w called) (auto split: outcome.splits prod.splits)

section \<open>The concurrent operators when the mutex is free\<close>

lemma concurrent_subscribe_free:
  "\<not> mutex ev \<Longrightarrow>
     concurrent_subscribe cb ev = Some (ev\<lparr>concurrent_callbacks := concurrent_callbacks ev @ [cb]\<rparr>)"
  by (cases ev) (simp add: concurrent_subscribe_def lock_guard_def unlock_def push_back_def)

lemma concurrent_unsubscribe_free:
  assumes "\<not> mutex ev"
  shows "concurrent_unsubscribe cb ev =
     Some (ev\<lparr>concurrent_callbacks := filter (\<lambda>y. y \<noteq> cb) (concurrent_callbacks ev)\<rparr>)"
proof -
  obtain v k where r: "std_remove (concurrent_callbacks ev) cb = (v, k)"
    by (cases "std_remove (concurrent_callbacks ev) cb")
  from std_remove_spec [OF r]
  have s: "take k v = filter (\<lambda>y. y \<noteq> cb) (concurrent_callbacks ev)" by simp
  have "(if k \<noteq> length v then erase k (length v) v else v) = take k v"
    by (simp add: erase_to_end)
  with s have e: "(if k \<noteq> length v then erase k (length v) v else v)
      = filter (\<lambda>y. y \<noteq> cb) (concurrent_callbacks ev)" by simp
  from assms r have "concurrent_unsubscribe cb ev =
      Some (ev\<lparr>concurrent_callbacks := (if k \<noteq> length v then erase k (length v) v else v)\<rparr>)"
    by (cases ev) (simp add: concurrent_unsubscribe_def lock_guard_def unlock_def)
  with e show ?thesis by simp
qed

lemma concurrent_invoke_free:
  "\<not> mutex ev \<Longrightarrow>
     concurrent_invoke P ev args w =
       Some (fst (invoke_loop P args (concurrent_callbacks ev) w),
             map_outcome (\<lambda>e. e) (Pair ev) (snd (invoke_loop P args (concurrent_callbacks ev) w)))"
  by (cases ev) (simp add: concurrent_invoke_def lock_guard_def unlock_def split: prod.splits)

section \<open>Subscribing and invoking\<close>

lemma invoke_unfold:
  "invoke P ev args w =
     (fst (invoke_loop P args (callbacks ev) w),
      map_outcome (\<lambda>e. e) (Pair ev) (snd (invoke_loop P args (callbacks ev) w)))"
  by (simp add: invoke_def split: prod.splits)

lemma callbacks_fold_subscribe:
  "callbacks (fold subscribe hs ev) = callbacks ev @ hs"
  by (induction hs arbitrary: ev) (simp_all add: subscribe_def push_back_def)

lemma count_list_filter_neq: "count_list (filter (\<lambda>y. y \<noteq> h) xs) h = 0"
  by (induction xs) simp_all

lemma length_filter_neq_count: "length (filter (\<lambda>y. y \<noteq> h) xs) + count_list xs h = length xs"
  by (induction xs) simp_all

lemma invoke_called_subset: "set (fst (invoke P ev args w)) \<subseteq> set (callbacks ev)"
  using invoke_loop_prefix [of P args "callbacks ev" w]
  by (simp add: invoke_unfold set_mono_prefix)

lemma callbacks_funpow_subscribe:
  "callbacks ((subscribe h ^^ k) ev) = callbacks ev @ replicate k h"
proof (induction k)
  case 0
  show ?case by simp
next
  case (Suc k)
  then show ?case
    by (simp add: subscribe_def push_back_def replicate_append_same)
qed

section \<open>The vector in memory and the loop over it\<close>

lemma live_vector_new: "live vector_new = []"
  by (simp add: live_def vector_new_def)

lemma length_live: "used v \<le> length (buffer v) \<Longrightarrow> length (live v) = used v"
  by (simp add: live_def)

lemma live_nth: "i < used v \<Longrightarrow> live v ! i = buffer v ! i"
  by (simp add: live_def)

lemma subscribe_stored_live:
  assumes "used v \<le> length (buffer v)"
  shows "live (subscribe_stored cb v) = live v @ [cb] \<and>
         used (subscribe_stored cb v) \<le> length (buffer (subscribe_stored cb v))"
proof (cases "used v < length (buffer v)")
  case True
  then show ?thesis
    by (simp add: subscribe_stored_def vector_push_back_def live_def take_Suc_conv_app_nth)
next
  case False
  with assms have "used v = length (buffer v)" by simp
  then show ?thesis
    by (simp add: subscribe_stored_def vector_push_back_def live_def)
qed


lemma fold_subscribe_stored_live:
  "used v \<le> length (buffer v) \<Longrightarrow>
     live (fold subscribe_stored hs v) = live v @ hs \<and>
     used (fold subscribe_stored hs v) \<le> length (buffer (fold subscribe_stored hs v))"
proof (induction hs arbitrary: v)
  case Nil
  then show ?case by simp
next
  case (Cons h hs)
  from subscribe_stored_live [OF Cons.prems, of h]
  have a: "live (subscribe_stored h v) = live v @ [h]"
    and b: "used (subscribe_stored h v) \<le> length (buffer (subscribe_stored h v))" by simp_all
  from Cons.IH [OF b] a show ?case by simp
qed

lemma funpow_subscribe_stored_live:
  "used v \<le> length (buffer v) \<Longrightarrow>
     live ((subscribe_stored h ^^ k) v) = live v @ replicate k h \<and>
     used ((subscribe_stored h ^^ k) v) \<le> length (buffer ((subscribe_stored h ^^ k) v))"
proof (induction k)
  case 0
  then show ?case by simp
next
  case (Suc k)
  then have a: "live ((subscribe_stored h ^^ k) v) = live v @ replicate k h"
    and b: "used ((subscribe_stored h ^^ k) v) \<le> length (buffer ((subscribe_stored h ^^ k) v))"
    by simp_all
  from subscribe_stored_live [OF b, of h] a show ?case
    by (simp add: replicate_append_same)
qed

text \<open>The loop over callbacks that return and make no call on the event.\<close>

lemma range_for_chain:
  assumes wf: "used v \<le> length (buffer v)"
    and len: "length ss = Suc (used v)"
    and step: "\<forall>i. it \<le> i \<and> i < used v \<longrightarrow>
                 call_reentrant P (buffer v ! i) args (ss ! i) = ([], Returned (ss ! Suc i))"
    and le: "it \<le> used v"
  shows "range_for P args (block v) it (used v) v (ss ! it)
           = (drop it (live v), Returned (v, ss ! used v))"
  using le step
proof (induction "used v - it" arbitrary: it)
  case 0
  then have "it = used v" by simp
  with wf show ?case by (subst range_for.simps) (simp add: live_def)
next
  case (Suc n)
  then have lt: "it < used v" by simp
  with Suc.prems have c: "call_reentrant P (buffer v ! it) args (ss ! it) = ([], Returned (ss ! Suc it))"
    by simp
  have rec: "range_for P args (block v) (Suc it) (used v) v (ss ! Suc it)
      = (drop (Suc it) (live v), Returned (v, ss ! used v))"
    using Suc.hyps Suc.prems lt by (intro Suc.hyps(1)) auto
  have d: "drop it (live v) = buffer v ! it # drop (Suc it) (live v)"
    using lt wf by (simp add: live_def Cons_nth_drop_Suc [symmetric])
  from lt wf c rec d show ?case
    by (subst range_for.simps) simp
qed


lemma range_for_no_reentry:
  assumes wf: "used v \<le> length (buffer v)"
    and quiet: "\<forall>cb args w. fst (call_reentrant P cb args w) = []"
  shows "it \<le> used v \<Longrightarrow>
     \<exists>called r. concurrent_range_for P args (drop it (live v)) w = Some (called, r) \<and>
        range_for P args (block v) it (used v) v w = (called, map_outcome (\<lambda>e. e) (Pair v) r)"
proof (induction "used v - it" arbitrary: it w)
  case 0
  then have "it = used v" by simp
  with wf show ?case by (subst range_for.simps) (simp add: live_def)
next
  case (Suc n)
  then have lt: "it < used v" by simp
  let ?cb = "buffer v ! it"
  have d: "drop it (live v) = ?cb # drop (Suc it) (live v)"
    using lt wf by (simp add: live_def Cons_nth_drop_Suc [symmetric])
  obtain calls r0 where c0: "call_reentrant P ?cb args w = (calls, r0)"
    by (cases "call_reentrant P ?cb args w")
  with quiet have "calls = []" by (metis fst_conv)
  with c0 have c: "call_reentrant P ?cb args w = ([], r0)" by simp
  show ?case
  proof (cases r0)
    case (Returned w')
    have "Suc it \<le> used v" "n = used v - Suc it" using lt Suc.hyps(2) by simp_all
    from Suc.hyps(1) [OF this(2) this(1), of w']
    obtain called r where
      a: "concurrent_range_for P args (drop (Suc it) (live v)) w' = Some (called, r)"
      and b: "range_for P args (block v) (Suc it) (used v) v w'
                = (called, map_outcome (\<lambda>e. e) (Pair v) r)"
      by blast
    from lt wf c Returned a b d show ?thesis
      by (subst range_for.simps) simp
  next
    case (Thrown x w')
    with lt wf c d show ?thesis by (subst range_for.simps) simp
  next
    case Undefined
    with lt wf c d show ?thesis by (subst range_for.simps) simp
  qed
qed




text \<open>
  On a program of the first kind the loop over the vector in memory is the loop over the
  list of its elements.
\<close>

lemma call_reentrant_plain: "call_reentrant (plain P) cb args w = ([], call P cb args w)"
  by (simp add: call_reentrant_def call_def plain_def split: option.splits)

lemma concurrent_range_for_plain:
  "concurrent_range_for (plain P) args cbs w = Some (invoke_loop P args cbs w)"
  by (induction cbs arbitrary: w)
     (auto simp: call_reentrant_plain split: outcome.splits prod.splits)

lemma concurrent_invoke_reentrant_plain:
  "concurrent_invoke_reentrant (plain P) ev args w = concurrent_invoke P ev args w"
  by (simp add: concurrent_invoke_reentrant_def concurrent_invoke_def concurrent_range_for_plain
      split: option.splits prod.splits)

lemma invoke_stored_plain:
  assumes "used v \<le> length (buffer v)"
  shows "invoke_stored (plain P) v args w =
     (fst (invoke_loop P args (live v) w),
      map_outcome (\<lambda>e. e) (Pair v) (snd (invoke_loop P args (live v) w)))"
proof -
  have "\<forall>cb args w. fst (call_reentrant (plain P) cb args w) = []"
    by (simp add: call_reentrant_plain)
  from range_for_no_reentry [OF assms this, of 0 args w]
  show ?thesis by (auto simp: invoke_stored_def concurrent_range_for_plain)
qed


section \<open>The test cases, run on the model\<close>

text \<open>
  The bodies of \<^verbatim>\<open>SubscribeAndInvoke\<close>, \<^verbatim>\<open>UnsubscribeCallback\<close>,
  \<^verbatim>\<open>MultipleSubscriptionsOfSameCallback\<close> and \<^verbatim>\<open>UnsubscribeNonexistentCallback\<close>
  with the values the tests expect, one run of \<^verbatim>\<open>std::remove\<close> that shows the
  stale tail which \<^verbatim>\<open>erase\<close> then cuts off, and the counter at \<^verbatim>\<open>INT_MAX\<close>.
\<close>

lemma scenario_subscribe_and_invoke:
  "run test_reentrant_program [Subscribe 1, Subscribe 2, Invoke 42] vector_new tracker_zero
     = ([Called 1, Called 2],
        Returned (\<lparr>block = 2, buffer = [1, 2], used = 2\<rparr>, \<lparr>counter = 3, last_value = 42\<rparr>))"
  by code_simp

lemma scenario_unsubscribe_callback:
  "run test_reentrant_program [Subscribe 1, Subscribe 2, Unsubscribe 1, Invoke 7]
     vector_new tracker_zero
     = ([Called 2],
        Returned (\<lparr>block = 2, buffer = [2, 2], used = 1\<rparr>, \<lparr>counter = 2, last_value = 7\<rparr>))"
  by code_simp

lemma scenario_multiple_subscriptions:
  "run test_reentrant_program [Subscribe 1, Subscribe 1, Invoke 10] vector_new tracker_zero
     = ([Called 1, Called 1],
        Returned (\<lparr>block = 2, buffer = [1, 1], used = 2\<rparr>, \<lparr>counter = 2, last_value = 10\<rparr>))"
  by code_simp

lemma scenario_unsubscribe_nonexistent:
  "unsubscribe 1 static_event_new = static_event_new \<and>
   unsubscribe_stored 1 vector_new = vector_new"
  by code_simp

lemma std_remove_leaves_stale_tail:
  "std_remove [1, 2, 1, 3, 1, 4] 1 = ([2, 3, 4, 3, 1, 4], 3)"
  by code_simp

lemma counter_wraps_at_int_max:
  "callback1 0 \<lparr>counter = 2147483647, last_value = 0\<rparr>
     = Returned \<lparr>counter = - 2147483648, last_value = 0\<rparr>"
  by (simp add: callback1_def wrap_int_def)

section \<open>The contract of the event\<close>

lemma nth_length_last: "(w # ws) ! length ws = last (w # ws)"
  by (induction ws arbitrary: w) simp_all

lemma invoke_stored_chain:
  assumes wf: "used v \<le> length (buffer v)"
    and len: "length ws = used v"
    and step: "\<forall>i < used v. call_reentrant P (live v ! i) args ((w # ws) ! i) = ([], Returned (ws ! i))"
  shows "invoke_stored P v args w = (live v, Returned (v, last (w # ws)))"
proof -
  have "\<forall>i. 0 \<le> i \<and> i < used v \<longrightarrow>
      call_reentrant P (buffer v ! i) args ((w # ws) ! i) = ([], Returned ((w # ws) ! Suc i))"
    using step by (simp add: live_nth)
  from range_for_chain [OF wf _ this] len
  have "range_for P args (block v) 0 (used v) v w = (live v, Returned (v, (w # ws) ! used v))"
    by simp
  with len nth_length_last [of w ws] show ?thesis
    by (simp add: invoke_stored_def)
qed

text \<open>
  C1 (ordering), with its provisos. Subscribing the handles \<open>h1, \<dots>, hn\<close> in that
  order to a freshly constructed event leaves exactly that sequence in the event. When
  then, in an invocation from the state \<open>w\<close>, each handle in turn returns without
  calling an operator of the event (\<open>hi\<close> taking the state \<open>(w # ws) ! i\<close> to
  \<open>ws ! i\<close>), the invocation calls exactly \<open>h1, \<dots>, hn\<close> in that order, returns, and
  leaves the event as it was and the global state as the last callback left it.
\<close>

theorem invoke_calls_returning_callbacks_in_order:
  "live (fold subscribe_stored hs vector_new) = hs \<and>
   (length ws = length hs \<and>
    (\<forall>i < length hs. call_reentrant P (hs ! i) args ((w # ws) ! i) = ([], Returned (ws ! i))) \<longrightarrow>
      invoke_stored P (fold subscribe_stored hs vector_new) args w =
        (hs, Returned (fold subscribe_stored hs vector_new, last (w # ws))))"
proof (intro conjI impI)
  let ?v = "fold subscribe_stored hs vector_new"
  have "used vector_new \<le> length (buffer vector_new)" by (simp add: vector_new_def)
  from fold_subscribe_stored_live [OF this, of hs]
  have l: "live ?v = hs" and wf: "used ?v \<le> length (buffer ?v)"
    by (simp_all add: live_vector_new)
  show "live ?v = hs" by (rule l)
  assume a: "length ws = length hs \<and>
    (\<forall>i < length hs. call_reentrant P (hs ! i) args ((w # ws) ! i) = ([], Returned (ws ! i)))"
  from length_live [OF wf] l have u: "used ?v = length hs" by simp
  from invoke_stored_chain [OF wf, of ws P args w] a u l
  show "invoke_stored P ?v args w = (hs, Returned (?v, last (w # ws)))" by simp
qed

theorem invoke_calls_returning_callbacks_in_order_witness:
  "length [\<lparr>counter = 1, last_value = 42\<rparr>, \<lparr>counter = 3, last_value = 42\<rparr>] = length [1 :: nat, 2] \<and>
   call_reentrant test_reentrant_program 1 42 tracker_zero
     = ([], Returned \<lparr>counter = 1, last_value = 42\<rparr>) \<and>
   call_reentrant test_reentrant_program 2 42 \<lparr>counter = 1, last_value = 42\<rparr>
     = ([], Returned \<lparr>counter = 3, last_value = 42\<rparr>) \<and>
   live (fold subscribe_stored [1, 2] vector_new) = [1, 2] \<and>
   invoke_stored test_reentrant_program (fold subscribe_stored [1, 2] vector_new) 42 tracker_zero
     = ([1, 2], Returned (fold subscribe_stored [1, 2] vector_new,
                          \<lparr>counter = 3, last_value = 42\<rparr>))"
proof -
  have c1: "call_reentrant test_reentrant_program 1 42 tracker_zero
      = ([], Returned \<lparr>counter = 1, last_value = 42\<rparr>)"
    by (simp add: call_reentrant_def test_reentrant_program_def plain_def test_program_def
        nullptr_def callback1_def tracker_zero_def)
  have c2: "call_reentrant test_reentrant_program 2 42 \<lparr>counter = 1, last_value = 42\<rparr>
      = ([], Returned \<lparr>counter = 3, last_value = 42\<rparr>)"
    by (simp add: call_reentrant_def test_reentrant_program_def plain_def test_program_def
        nullptr_def callback2_def)
  have h: "\<forall>i < length [1 :: nat, 2].
      call_reentrant test_reentrant_program ([1, 2] ! i) 42
        ((tracker_zero # [\<lparr>counter = 1, last_value = 42\<rparr>, \<lparr>counter = 3, last_value = 42\<rparr>]) ! i)
      = ([], Returned ([\<lparr>counter = 1, last_value = 42\<rparr>, \<lparr>counter = 3, last_value = 42\<rparr>] ! i))"
    using c1 c2 by (simp add: less_Suc_eq numeral_2_eq_2)
  from invoke_calls_returning_callbacks_in_order
         [where hs = "[1, 2]" and P = test_reentrant_program and args = 42 and w = tracker_zero
            and ws = "[\<lparr>counter = 1, last_value = 42\<rparr>, \<lparr>counter = 3, last_value = 42\<rparr>]"] h c1 c2
  show ?thesis by simp
qed

text \<open>
  Without the provisos the ordering fails. With the throwing function second of three,
  the third is never called. With the self-removing function first of three, the
  removal shifts the other two forward under the loop, whose end stays where it was: the
  second handle is skipped and the third is called twice.
\<close>

theorem invoke_order_counterexample:
  "live (fold subscribe_stored [1, 3, 2] vector_new) = [1, 3, 2] \<and>
   invoke_stored test_reentrant_program (fold subscribe_stored [1, 3, 2] vector_new) 5 tracker_zero
     = ([1, 3], Thrown ''fault'' (fold subscribe_stored [1, 3, 2] vector_new,
                                  \<lparr>counter = 11, last_value = 5\<rparr>)) \<and>
   live (fold subscribe_stored [7, 1, 2] vector_new) = [7, 1, 2] \<and>
   fst (invoke_stored test_reentrant_program (fold subscribe_stored [7, 1, 2] vector_new)
          5 tracker_zero) = [7, 2, 2]"
  by code_simp


lemma unsubscribe_every_occurrence:
  assumes "count_list (callbacks ev) h = k" and "1 \<le> k"
  shows "callbacks (unsubscribe h ev) = filter (\<lambda>y. y \<noteq> h) (callbacks ev) \<and>
         count_list (callbacks (unsubscribe h ev)) h = 0 \<and>
         length (callbacks (unsubscribe h ev)) + k = length (callbacks ev) \<and>
         h \<notin> set (fst (invoke P (unsubscribe h ev) args w))"
proof -
  have eq: "callbacks (unsubscribe h ev) = filter (\<lambda>y. y \<noteq> h) (callbacks ev)"
    by (rule callbacks_unsubscribe)
  then have gone: "h \<notin> set (callbacks (unsubscribe h ev))" by simp
  with invoke_called_subset [of P "unsubscribe h ev" args w]
  have "h \<notin> set (fst (invoke P (unsubscribe h ev) args w))" by blast
  with eq assms show ?thesis
    using count_list_filter_neq [of h "callbacks ev"] length_filter_neq_count [of h "callbacks ev"]
    by simp
qed

lemma concurrent_unsubscribe_every_occurrence:
  assumes "\<not> mutex ev" and "count_list (concurrent_callbacks ev) h = k" and "1 \<le> k"
  shows "\<exists>ev'. concurrent_unsubscribe h ev = Some ev' \<and> \<not> mutex ev' \<and>
           concurrent_callbacks ev' = filter (\<lambda>y. y \<noteq> h) (concurrent_callbacks ev) \<and>
           count_list (concurrent_callbacks ev') h = 0 \<and>
           length (concurrent_callbacks ev') + k = length (concurrent_callbacks ev) \<and>
           (\<exists>called r. concurrent_invoke P ev' args w = Some (called, r) \<and> h \<notin> set called)"
proof -
  let ?ev' = "ev\<lparr>concurrent_callbacks := filter (\<lambda>y. y \<noteq> h) (concurrent_callbacks ev)\<rparr>"
  have u: "concurrent_unsubscribe h ev = Some ?ev'"
    by (rule concurrent_unsubscribe_free [OF assms(1)])
  have free: "\<not> mutex ?ev'" using assms(1) by simp
  have "prefix (fst (invoke_loop P args (concurrent_callbacks ?ev') w)) (concurrent_callbacks ?ev')"
    by (rule invoke_loop_prefix)
  then have "set (fst (invoke_loop P args (concurrent_callbacks ?ev') w))
      \<subseteq> set (concurrent_callbacks ?ev')"
    by (rule set_mono_prefix)
  then have "h \<notin> set (fst (invoke_loop P args (concurrent_callbacks ?ev') w))" by auto
  with concurrent_invoke_free [OF free, of P args w]
  have "\<exists>called r. concurrent_invoke P ?ev' args w = Some (called, r) \<and> h \<notin> set called"
    by simp
  with u free assms(2,3) show ?thesis
    using count_list_filter_neq [of h "concurrent_callbacks ev"]
      length_filter_neq_count [of h "concurrent_callbacks ev"]
    by simp
qed


text \<open>
  C2 (bulk removal). When the handle \<open>h\<close> occurs \<open>k \<ge> 1\<close> times in the sequence, one
  \<^verbatim>\<open>operator-=\<close> removes all \<open>k\<close> occurrences and keeps the other entries in their
  order (the result is the sequence filtered by \<open>\<noteq> h\<close>), and no later invocation calls
  \<open>h\<close>. The same holds of the concurrent event when its mutex is free, and the mutex
  is free again afterwards.
\<close>

theorem unsubscribe_removes_every_occurrence:
  assumes "1 \<le> k"
  shows "(count_list (callbacks ev) h = k \<longrightarrow>
            callbacks (unsubscribe h ev) = filter (\<lambda>y. y \<noteq> h) (callbacks ev) \<and>
            count_list (callbacks (unsubscribe h ev)) h = 0 \<and>
            length (callbacks (unsubscribe h ev)) + k = length (callbacks ev) \<and>
            h \<notin> set (fst (invoke P (unsubscribe h ev) args w))) \<and>
         (\<not> mutex cev \<and> count_list (concurrent_callbacks cev) h = k \<longrightarrow>
            (\<exists>cev'. concurrent_unsubscribe h cev = Some cev' \<and> \<not> mutex cev' \<and>
               concurrent_callbacks cev' = filter (\<lambda>y. y \<noteq> h) (concurrent_callbacks cev) \<and>
               count_list (concurrent_callbacks cev') h = 0 \<and>
               length (concurrent_callbacks cev') + k = length (concurrent_callbacks cev) \<and>
               (\<exists>called r. concurrent_invoke P cev' args w = Some (called, r) \<and> h \<notin> set called)))"
  using unsubscribe_every_occurrence [OF _ assms, of ev h P args w]
    concurrent_unsubscribe_every_occurrence [OF _ _ assms, of cev h P args w]
  by blast

theorem unsubscribe_removes_every_occurrence_witness:
  "(1 :: nat) \<le> 3 \<and>
   count_list (callbacks \<lparr>callbacks = [1, 2, 1, 3, 1]\<rparr>) 1 = 3 \<and>
   callbacks (unsubscribe 1 \<lparr>callbacks = [1, 2, 1, 3, 1]\<rparr>) = [2, 3] \<and>
   1 \<notin> set (fst (invoke test_program (unsubscribe 1 \<lparr>callbacks = [1, 2, 1, 3, 1]\<rparr>)
                   (7 :: int) tracker_zero)) \<and>
   \<not> mutex \<lparr>mutex = False, concurrent_callbacks = [1, 2, 1, 3, 1]\<rparr> \<and>
   count_list (concurrent_callbacks \<lparr>mutex = False, concurrent_callbacks = [1, 2, 1, 3, 1]\<rparr>) 1 = 3 \<and>
   (\<exists>cev'. concurrent_unsubscribe 1 \<lparr>mutex = False, concurrent_callbacks = [1, 2, 1, 3, 1]\<rparr>
              = Some cev' \<and> \<not> mutex cev' \<and> concurrent_callbacks cev' = [2, 3])"
proof -
  have k: "(1 :: nat) \<le> 3" by simp
  have c: "count_list (callbacks \<lparr>callbacks = [1, 2, 1, 3, 1]\<rparr>) 1 = 3" by simp
  have m: "\<not> mutex \<lparr>mutex = False, concurrent_callbacks = [1, 2, 1, 3, 1]\<rparr>" by simp
  have cc: "count_list (concurrent_callbacks \<lparr>mutex = False, concurrent_callbacks = [1, 2, 1, 3, 1]\<rparr>) 1 = 3"
    by simp
  from unsubscribe_removes_every_occurrence [OF k,
      of "\<lparr>callbacks = [1, 2, 1, 3, 1]\<rparr>" 1 test_program 7 tracker_zero
         "\<lparr>mutex = False, concurrent_callbacks = [1, 2, 1, 3, 1]\<rparr>"] c m cc
  show ?thesis by simp blast
qed

lemma count_list_replicate: "count_list (replicate k h) h = k"
  by (induction k) simp_all

text \<open>
  C3 (multiplicity), with its provisos. \<^verbatim>\<open>operator+=\<close> never deduplicates: \<open>k\<close>
  subscriptions of \<open>h\<close> add \<open>k\<close> entries \<open>h\<close> at the end, whatever the event held
  before, so \<open>h\<close> occurs \<open>k\<close> times more than before, and \<open>k\<close> times in an event that
  started empty. When then, in an invocation from the state \<open>w\<close>, each of the \<open>k\<close>
  calls of \<open>h\<close> returns without calling an operator of the event (the call number \<open>i\<close>
  taking the state \<open>(w # ws) ! i\<close> to \<open>ws ! i\<close>), the invocation calls \<open>h\<close> exactly
  \<open>k\<close> times, returns, and leaves the global state as the last call left it.
\<close>

theorem subscribe_never_deduplicates:
  "callbacks ((subscribe h ^^ k) ev) = callbacks ev @ replicate k h \<and>
   count_list (callbacks ((subscribe h ^^ k) ev)) h = count_list (callbacks ev) h + k \<and>
   live ((subscribe_stored h ^^ k) vector_new) = replicate k h \<and>
   count_list (live ((subscribe_stored h ^^ k) vector_new)) h = k \<and>
   (length ws = k \<and>
    (\<forall>i < k. call_reentrant P h args ((w # ws) ! i) = ([], Returned (ws ! i))) \<longrightarrow>
      (\<exists>called. invoke_stored P ((subscribe_stored h ^^ k) vector_new) args w =
           (called, Returned ((subscribe_stored h ^^ k) vector_new, last (w # ws))) \<and>
         called = replicate k h \<and> count_list called h = k))"
proof (intro conjI impI)
  let ?v = "(subscribe_stored h ^^ k) vector_new"
  show a: "callbacks ((subscribe h ^^ k) ev) = callbacks ev @ replicate k h"
    by (rule callbacks_funpow_subscribe)
  then show "count_list (callbacks ((subscribe h ^^ k) ev)) h = count_list (callbacks ev) h + k"
    by (simp add: count_list_replicate)
  have "used vector_new \<le> length (buffer vector_new)" by (simp add: vector_new_def)
  from funpow_subscribe_stored_live [OF this, where h = h and k = k]
  have l: "live ?v = replicate k h" and wf: "used ?v \<le> length (buffer ?v)"
    by (simp_all add: live_vector_new)
  show "live ?v = replicate k h" by (rule l)
  then show "count_list (live ?v) h = k" by (simp add: count_list_replicate)
  assume h: "length ws = k \<and>
    (\<forall>i < k. call_reentrant P h args ((w # ws) ! i) = ([], Returned (ws ! i)))"
  from length_live [OF wf] l have u: "used ?v = k" by simp
  from invoke_stored_chain [OF wf, of ws P args w] h u l
  have "invoke_stored P ?v args w = (replicate k h, Returned (?v, last (w # ws)))" by simp
  then show "\<exists>called. invoke_stored P ?v args w = (called, Returned (?v, last (w # ws))) \<and>
      called = replicate k h \<and> count_list called h = k"
    by (simp add: count_list_replicate)
qed

theorem subscribe_never_deduplicates_witness:
  "length [\<lparr>counter = 1, last_value = 10\<rparr>, \<lparr>counter = 2, last_value = 10\<rparr>] = (2 :: nat) \<and>
   call_reentrant test_reentrant_program 1 10 tracker_zero
     = ([], Returned \<lparr>counter = 1, last_value = 10\<rparr>) \<and>
   call_reentrant test_reentrant_program 1 10 \<lparr>counter = 1, last_value = 10\<rparr>
     = ([], Returned \<lparr>counter = 2, last_value = 10\<rparr>) \<and>
   live ((subscribe_stored 1 ^^ 2) vector_new) = [1, 1] \<and>
   invoke_stored test_reentrant_program ((subscribe_stored 1 ^^ 2) vector_new) 10 tracker_zero
     = ([1, 1], Returned ((subscribe_stored 1 ^^ 2) vector_new, \<lparr>counter = 2, last_value = 10\<rparr>)) \<and>
   count_list [1, 1] (1 :: nat) = 2"
proof -
  have c1: "call_reentrant test_reentrant_program 1 10 tracker_zero
      = ([], Returned \<lparr>counter = 1, last_value = 10\<rparr>)"
    by (simp add: call_reentrant_def test_reentrant_program_def plain_def test_program_def
        nullptr_def callback1_def tracker_zero_def)
  have c2: "call_reentrant test_reentrant_program 1 10 \<lparr>counter = 1, last_value = 10\<rparr>
      = ([], Returned \<lparr>counter = 2, last_value = 10\<rparr>)"
    by (simp add: call_reentrant_def test_reentrant_program_def plain_def test_program_def
        nullptr_def callback1_def)
  have h: "\<forall>i < (2 :: nat).
      call_reentrant test_reentrant_program 1 10
        ((tracker_zero # [\<lparr>counter = 1, last_value = 10\<rparr>, \<lparr>counter = 2, last_value = 10\<rparr>]) ! i)
      = ([], Returned ([\<lparr>counter = 1, last_value = 10\<rparr>, \<lparr>counter = 2, last_value = 10\<rparr>] ! i))"
    using c1 c2 by (simp add: less_Suc_eq numeral_2_eq_2)
  have n: "replicate 2 (1 :: nat) = [1, 1]" by (simp add: numeral_2_eq_2)
  from subscribe_never_deduplicates
         [where h = 1 and k = 2 and P = test_reentrant_program and args = 10 and w = tracker_zero
            and ev = static_event_new
            and ws = "[\<lparr>counter = 1, last_value = 10\<rparr>, \<lparr>counter = 2, last_value = 10\<rparr>]"]
       h c1 c2 n
  show ?thesis by simp
qed

text \<open>
  Without the provisos the multiplicity fails: the throwing function subscribed twice is
  called once, since its first call ends the invocation.
\<close>

theorem subscribe_multiplicity_counterexample:
  "live ((subscribe_stored 3 ^^ 2) vector_new) = [3, 3] \<and>
   invoke_stored test_reentrant_program ((subscribe_stored 3 ^^ 2) vector_new) 5 tracker_zero
     = ([3], Thrown ''fault'' ((subscribe_stored 3 ^^ 2) vector_new,
                               \<lparr>counter = 10, last_value = 0\<rparr>)) \<and>
   count_list [3] (3 :: nat) = 1"
  by code_simp

lemma concurrent_unsubscribe_absent:
  assumes "\<not> mutex ev" and "h \<notin> set (concurrent_callbacks ev)"
  shows "concurrent_unsubscribe h ev = Some ev"
proof -
  from assms(2) have "filter (\<lambda>y. y \<noteq> h) (concurrent_callbacks ev) = concurrent_callbacks ev"
    by (auto simp add: filter_id_conv)
  with concurrent_unsubscribe_free [OF assms(1), of h] show ?thesis by simp
qed

text \<open>
  C4 (removal of an absent handle). \<^verbatim>\<open>operator-=\<close> with a handle that is not in the
  sequence returns with the event exactly as it was; the operator has no failing
  outcome at all. The concurrent operator does the same when its mutex is free.
\<close>

theorem unsubscribe_absent_is_no_op:
  "(h \<notin> set (callbacks ev) \<longrightarrow> unsubscribe h ev = ev) \<and>
   (\<not> mutex cev \<and> h \<notin> set (concurrent_callbacks cev) \<longrightarrow> concurrent_unsubscribe h cev = Some cev)"
  using unsubscribe_absent [of h ev] concurrent_unsubscribe_absent [of cev h]
  by blast

theorem unsubscribe_absent_is_no_op_witness:
  "1 \<notin> set (callbacks static_event_new) \<and>
   unsubscribe 1 static_event_new = static_event_new \<and>
   3 \<notin> set (callbacks \<lparr>callbacks = [1, 2, 1]\<rparr>) \<and>
   unsubscribe 3 \<lparr>callbacks = [1, 2, 1]\<rparr> = \<lparr>callbacks = [1, 2, 1]\<rparr> \<and>
   \<not> mutex concurrent_static_event_new \<and>
   1 \<notin> set (concurrent_callbacks concurrent_static_event_new) \<and>
   concurrent_unsubscribe 1 concurrent_static_event_new = Some concurrent_static_event_new"
proof -
  have a: "1 \<notin> set (callbacks static_event_new)" by (simp add: static_event_new_def)
  have b: "3 \<notin> set (callbacks \<lparr>callbacks = [1, 2, 1]\<rparr>)" by simp
  have c: "\<not> mutex concurrent_static_event_new"
    "1 \<notin> set (concurrent_callbacks concurrent_static_event_new)"
    by (simp_all add: concurrent_static_event_new_def)
  from unsubscribe_absent_is_no_op [of 1 static_event_new concurrent_static_event_new]
    unsubscribe_absent_is_no_op [of 3 "\<lparr>callbacks = [1, 2, 1]\<rparr>" concurrent_static_event_new]
    a b c
  show ?thesis by blast
qed

lemma invoke_loop_stops_at_throw:
  assumes "invoke_loop P args pre w = (called, Returned w1)" and "call P h args w1 = Thrown e w2"
  shows "invoke_loop P args (pre @ h # post) w = (pre @ [h], Thrown e w2)"
  using invoke_loop_append [OF assms(1), of "h # post"] assms(2) by simp

lemma invoke_loop_stops_at_null:
  assumes "invoke_loop P args pre w = (called, Returned w1)"
  shows "invoke_loop P args (pre @ nullptr # post) w = (pre @ [nullptr], Undefined)"
  using invoke_loop_append [OF assms(1), of "nullptr # post"] by (simp add: call_def)

text \<open>
  C6 (callback fault). Let the callbacks before \<open>h\<close> in the sequence return, and let the
  call of \<open>h\<close> throw \<open>e\<close>. Then the invocation ends with \<open>e\<close> thrown to its caller, in
  the global state the throwing callback left; the calls made are those before \<open>h\<close> and
  the one call of \<open>h\<close>, whatever follows \<open>h\<close> in the sequence: nothing after it runs,
  nothing is called again, nothing is undone. The concurrent event does the same and has
  released its mutex.
\<close>

theorem callback_fault_aborts_invoke:
  assumes "invoke_loop P args pre w = (called, Returned w1)"
    and "call P h args w1 = Thrown e w2"
  shows "(callbacks ev = pre @ h # post \<longrightarrow>
            invoke P ev args w = (pre @ [h], Thrown e (ev, w2))) \<and>
         (\<not> mutex cev \<and> concurrent_callbacks cev = pre @ h # post \<longrightarrow>
            concurrent_invoke P cev args w = Some (pre @ [h], Thrown e (cev, w2)))"
  using invoke_loop_stops_at_throw [OF assms, of post]
  by (simp add: invoke_unfold concurrent_invoke_free)

theorem callback_fault_aborts_invoke_witness:
  "invoke_loop test_program (5 :: int) [1] tracker_zero
     = ([1], Returned \<lparr>counter = 1, last_value = 5\<rparr>) \<and>
   call test_program 3 5 \<lparr>counter = 1, last_value = 5\<rparr>
     = Thrown ''fault'' \<lparr>counter = 11, last_value = 5\<rparr> \<and>
   callbacks \<lparr>callbacks = [1, 3, 2]\<rparr> = [1] @ 3 # [2] \<and>
   invoke test_program \<lparr>callbacks = [1, 3, 2]\<rparr> 5 tracker_zero
     = ([1, 3], Thrown ''fault'' (\<lparr>callbacks = [1, 3, 2]\<rparr>, \<lparr>counter = 11, last_value = 5\<rparr>)) \<and>
   \<not> mutex \<lparr>mutex = False, concurrent_callbacks = [1, 3, 2]\<rparr> \<and>
   concurrent_invoke test_program \<lparr>mutex = False, concurrent_callbacks = [1, 3, 2]\<rparr> 5 tracker_zero
     = Some ([1, 3], Thrown ''fault'' (\<lparr>mutex = False, concurrent_callbacks = [1, 3, 2]\<rparr>,
                                        \<lparr>counter = 11, last_value = 5\<rparr>))"
proof -
  have a: "invoke_loop test_program (5 :: int) [1] tracker_zero
      = ([1], Returned \<lparr>counter = 1, last_value = 5\<rparr>)"
    by (simp add: call_def test_program_def nullptr_def callback1_def tracker_zero_def)
  have b: "call test_program 3 (5 :: int) \<lparr>counter = 1, last_value = 5\<rparr>
      = Thrown ''fault'' \<lparr>counter = 11, last_value = 5\<rparr>"
    by (simp add: call_def test_program_def nullptr_def throwing_callback_def)
  from callback_fault_aborts_invoke [OF a b,
      of "\<lparr>callbacks = [1, 3, 2]\<rparr>" "[2]" "\<lparr>mutex = False, concurrent_callbacks = [1, 3, 2]\<rparr>"] a b
  show ?thesis by simp
qed




text \<open>
  C9 (invocation leaves the sequence alone). Whenever an invocation returns or throws,
  the event it leaves behind is the event it started with, handle for handle; the loop
  reads the vector and writes nothing. For the concurrent event this includes the mutex:
  an invocation that found it free returns, and leaves it free.
\<close>

theorem invoke_leaves_the_event_unchanged:
  "(invoke P ev args w = (called, r) \<and> (r = Returned (ev', w') \<or> r = Thrown e (ev', w')) \<longrightarrow>
      ev' = ev \<and> callbacks ev' = callbacks ev) \<and>
   (\<not> mutex cev \<longrightarrow> (\<exists>ccalled cr. concurrent_invoke P cev args w = Some (ccalled, cr))) \<and>
   (concurrent_invoke P cev args w = Some (ccalled, cr) \<and>
    (cr = Returned (cev', cw') \<or> cr = Thrown ce (cev', cw')) \<longrightarrow>
      cev' = cev \<and> concurrent_callbacks cev' = concurrent_callbacks cev)"
proof (intro conjI impI)
  assume a: "invoke P ev args w = (called, r) \<and> (r = Returned (ev', w') \<or> r = Thrown e (ev', w'))"
  then show "ev' = ev"
    by (cases "snd (invoke_loop P args (callbacks ev) w)") (auto simp: invoke_unfold)
  then show "callbacks ev' = callbacks ev" by simp
next
  assume "\<not> mutex cev"
  then show "\<exists>ccalled cr. concurrent_invoke P cev args w = Some (ccalled, cr)"
    by (simp add: concurrent_invoke_free)
next
  assume a: "concurrent_invoke P cev args w = Some (ccalled, cr) \<and>
    (cr = Returned (cev', cw') \<or> cr = Thrown ce (cev', cw'))"
  then have free: "\<not> mutex cev"
    by (auto simp: concurrent_invoke_def lock_guard_def)
  with a show "cev' = cev"
    by (cases "snd (invoke_loop P args (concurrent_callbacks cev) w)")
       (auto simp: concurrent_invoke_free)
  then show "concurrent_callbacks cev' = concurrent_callbacks cev" by simp
qed


theorem invoke_leaves_the_event_unchanged_witness:
  "(\<exists>called ev' w'. invoke test_program \<lparr>callbacks = [1, 2]\<rparr> (7 :: int) tracker_zero
        = (called, Returned (ev', w')) \<and> ev' = \<lparr>callbacks = [1, 2]\<rparr>) \<and>
   (\<exists>called e ev' w'. invoke test_program \<lparr>callbacks = [1, 3, 2]\<rparr> (7 :: int) tracker_zero
        = (called, Thrown e (ev', w')) \<and> ev' = \<lparr>callbacks = [1, 3, 2]\<rparr>) \<and>
   \<not> mutex \<lparr>mutex = False, concurrent_callbacks = [1, 2]\<rparr> \<and>
   (\<exists>called cev' w'. concurrent_invoke test_program \<lparr>mutex = False, concurrent_callbacks = [1, 2]\<rparr>
          (7 :: int) tracker_zero = Some (called, Returned (cev', w')) \<and>
        cev' = \<lparr>mutex = False, concurrent_callbacks = [1, 2]\<rparr>)"
proof -
  obtain called1 ev1 w1 where r1:
    "invoke test_program \<lparr>callbacks = [1, 2]\<rparr> (7 :: int) tracker_zero = (called1, Returned (ev1, w1))"
    by (simp add: invoke_def call_def test_program_def nullptr_def callback1_def callback2_def)
  obtain called2 e2 ev2 w2 where r2:
    "invoke test_program \<lparr>callbacks = [1, 3, 2]\<rparr> (7 :: int) tracker_zero
       = (called2, Thrown e2 (ev2, w2))"
    by (simp add: invoke_def call_def test_program_def nullptr_def callback1_def
        throwing_callback_def)
  obtain called3 ev3 w3 where r3:
    "concurrent_invoke test_program \<lparr>mutex = False, concurrent_callbacks = [1, 2]\<rparr>
       (7 :: int) tracker_zero = Some (called3, Returned (ev3, w3))"
    by (simp add: concurrent_invoke_def lock_guard_def unlock_def call_def test_program_def
        nullptr_def callback1_def callback2_def)
  from invoke_leaves_the_event_unchanged
         [of test_program "\<lparr>callbacks = [1, 2]\<rparr>" 7 tracker_zero called1 "Returned (ev1, w1)"
             ev1 w1 _ "\<lparr>mutex = False, concurrent_callbacks = [1, 2]\<rparr>"
             called3 "Returned (ev3, w3)" ev3 w3] r1 r3
  have a: "ev1 = \<lparr>callbacks = [1, 2]\<rparr>" "ev3 = \<lparr>mutex = False, concurrent_callbacks = [1, 2]\<rparr>"
    by simp_all
  from invoke_leaves_the_event_unchanged
         [of test_program "\<lparr>callbacks = [1, 3, 2]\<rparr>" 7 tracker_zero called2 "Thrown e2 (ev2, w2)"
             ev2 w2 e2 "\<lparr>mutex = False, concurrent_callbacks = [1, 2]\<rparr>"
             called3 "Returned (ev3, w3)" ev3 w3] r2
  have b: "ev2 = \<lparr>callbacks = [1, 3, 2]\<rparr>"
    by simp
  from a b r1 r2 r3 show ?thesis by simp
qed

text \<open>
  C10 (no validity check). \<^verbatim>\<open>operator+=\<close> appends whatever pointer it is given, the
  null pointer like any other. The loop of an invocation has no guard either: when the
  callbacks before a null entry have returned, the null pointer is called, which is
  undefined behaviour, and nothing after it is reached.
\<close>

theorem null_handle_is_subscribed_and_called:
  "subscribe cb ev = ev\<lparr>callbacks := callbacks ev @ [cb]\<rparr> \<and>
   callbacks (subscribe nullptr ev) = callbacks ev @ [nullptr] \<and>
   (\<not> mutex cev \<longrightarrow>
      concurrent_subscribe nullptr cev =
        Some (cev\<lparr>concurrent_callbacks := concurrent_callbacks cev @ [nullptr]\<rparr>)) \<and>
   (invoke_loop P args pre w = (called, Returned w1) \<and> callbacks ev = pre @ nullptr # post \<longrightarrow>
      invoke P ev args w = (pre @ [nullptr], Undefined)) \<and>
   (invoke_loop P args pre w = (called, Returned w1) \<and> \<not> mutex cev \<and>
    concurrent_callbacks cev = pre @ nullptr # post \<longrightarrow>
      concurrent_invoke P cev args w = Some (pre @ [nullptr], Undefined))"
  using invoke_loop_stops_at_null [of P args pre w called w1 post]
  by (simp add: subscribe_def push_back_def concurrent_subscribe_free invoke_unfold
      concurrent_invoke_free)

theorem null_handle_is_subscribed_and_called_witness:
  "callbacks (subscribe nullptr \<lparr>callbacks = [1]\<rparr>) = [1, nullptr] \<and>
   \<not> mutex concurrent_static_event_new \<and>
   concurrent_subscribe nullptr concurrent_static_event_new =
     Some \<lparr>mutex = False, concurrent_callbacks = [nullptr]\<rparr> \<and>
   invoke_loop test_program (9 :: int) [1] tracker_zero
     = ([1], Returned \<lparr>counter = 1, last_value = 9\<rparr>) \<and>
   invoke test_program (subscribe 2 (subscribe nullptr \<lparr>callbacks = [1]\<rparr>)) 9 tracker_zero
     = ([1, nullptr], Undefined) \<and>
   concurrent_invoke test_program \<lparr>mutex = False, concurrent_callbacks = [1, nullptr, 2]\<rparr>
       9 tracker_zero
     = Some ([1, nullptr], Undefined)"
proof -
  have a: "invoke_loop test_program (9 :: int) [1] tracker_zero
      = ([1], Returned \<lparr>counter = 1, last_value = 9\<rparr>)"
    by (simp add: call_def test_program_def nullptr_def callback1_def tracker_zero_def)
  have m: "\<not> mutex concurrent_static_event_new"
    by (simp add: concurrent_static_event_new_def)
  have s: "subscribe 2 (subscribe nullptr \<lparr>callbacks = [1]\<rparr>) = \<lparr>callbacks = [1, nullptr, 2]\<rparr>"
    by (simp add: subscribe_def push_back_def)
  from null_handle_is_subscribed_and_called
         [of nullptr "\<lparr>callbacks = [1]\<rparr>" concurrent_static_event_new
             test_program 9 "[]" tracker_zero "[]" tracker_zero "[]"]
  have p1: "callbacks (subscribe nullptr \<lparr>callbacks = [1]\<rparr>) = [1, nullptr]"
    and p2: "concurrent_subscribe nullptr concurrent_static_event_new =
       Some \<lparr>mutex = False, concurrent_callbacks = [nullptr]\<rparr>"
    using m by (simp_all add: concurrent_static_event_new_def)
  from null_handle_is_subscribed_and_called
         [of 2 "\<lparr>callbacks = [1, nullptr, 2]\<rparr>"
             "\<lparr>mutex = False, concurrent_callbacks = [1, nullptr, 2]\<rparr>"
             test_program 9 "[1]" tracker_zero "[1]" "\<lparr>counter = 1, last_value = 9\<rparr>" "[2]"] a
  have p3: "invoke test_program \<lparr>callbacks = [1, nullptr, 2]\<rparr> 9 tracker_zero
      = ([1, nullptr], Undefined)"
    and p4: "concurrent_invoke test_program \<lparr>mutex = False, concurrent_callbacks = [1, nullptr, 2]\<rparr>
       9 tracker_zero = Some ([1, nullptr], Undefined)"
    by simp_all
  from p1 p2 p3 p4 a m s show ?thesis by simp
qed


end
